theory Spec2Isabelle
  imports Main "HOL-Library.Multiset"
begin

section \<open>Cards and the deck\<close>

text \<open>
  \<^verbatim>\<open>RANKS = "23456789TJQKA"\<close> and the four suits. Card objects are only ever built by
  \<^verbatim>\<open>Deck.__init__\<close> from these two strings, so a rank is one of thirteen values and a
  suit one of four.
\<close>

datatype rank = R2 | R3 | R4 | R5 | R6 | R7 | R8 | R9 | RT | RJ | RQ | RK | RA

datatype suit = Spades | Hearts | Diamonds | Clubs

datatype card = Card (rank: rank) (suit: suit)

definition RANKS :: "rank list" where
  "RANKS = [R2, R3, R4, R5, R6, R7, R8, R9, RT, RJ, RQ, RK, RA]"

definition SUITS :: "suit list" where
  "SUITS = [Spades, Hearts, Diamonds, Clubs]"

text \<open>
  \<^verbatim>\<open>[Card(r, s) for r in RANKS for s in SUITS]\<close>: the card list of a new deck before
  \<^verbatim>\<open>random.shuffle\<close> permutes it.
\<close>

definition new_cards :: "card list" where
  "new_cards = concat (map (\<lambda>r. map (\<lambda>s. Card r s) SUITS) RANKS)"

text \<open>A deck after \<^verbatim>\<open>shuffle\<close> is some permutation of the 52 cards.\<close>

definition shuffled :: "card list \<Rightarrow> bool" where
  "shuffled cards = (mset cards = mset new_cards)"

text \<open>
  What ends a call without a result: \<^verbatim>\<open>pop\<close> on an empty list (IndexError),
  \<^verbatim>\<open>input\<close> at the end of the input (EOFError), a float too large for \<^verbatim>\<open>int\<close>
  or an integer too large for a float (OverflowError), and a loop that never returns
  (\<open>NoReturn\<close>).
\<close>

datatype error = IndexError | EOFError | OverflowError | NoReturn

text \<open>
  \<^verbatim>\<open>Deck.deal(n)\<close> is \<^verbatim>\<open>[self.cards.pop() for _ in range(n)]\<close>: it pops \<open>n\<close> times from
  the end of the list, and \<^verbatim>\<open>pop\<close> on an empty list raises IndexError. The result is the
  dealt cards in the order popped, with the cards that remain.
\<close>

fun deal :: "card list \<Rightarrow> nat \<Rightarrow> error + (card list \<times> card list)" where
  "deal cards 0 = Inr ([], cards)"
| "deal cards (Suc n) =
     (if cards = [] then Inl IndexError
      else case deal (butlast cards) n of
             Inl e \<Rightarrow> Inl e
           | Inr (cs, rest) \<Rightarrow> Inr (last cards # cs, rest))"

section \<open>Hand evaluation\<close>

text \<open>
  One pass of the \<^verbatim>\<open>for c in cards\<close> loop of \<^verbatim>\<open>hand_value\<close> on the pair
  \<open>(total, aces)\<close>: an Ace adds 11 and is counted, T, J, Q and K add 10, and a digit rank
  adds \<^verbatim>\<open>int(c.rank)\<close>.
\<close>

fun add_card :: "rank \<Rightarrow> int \<times> nat \<Rightarrow> int \<times> nat" where
  "add_card RA (tot, aces) = (tot + 11, aces + 1)"
| "add_card RT (tot, aces) = (tot + 10, aces)"
| "add_card RJ (tot, aces) = (tot + 10, aces)"
| "add_card RQ (tot, aces) = (tot + 10, aces)"
| "add_card RK (tot, aces) = (tot + 10, aces)"
| "add_card R2 (tot, aces) = (tot + 2, aces)"
| "add_card R3 (tot, aces) = (tot + 3, aces)"
| "add_card R4 (tot, aces) = (tot + 4, aces)"
| "add_card R5 (tot, aces) = (tot + 5, aces)"
| "add_card R6 (tot, aces) = (tot + 6, aces)"
| "add_card R7 (tot, aces) = (tot + 7, aces)"
| "add_card R8 (tot, aces) = (tot + 8, aces)"
| "add_card R9 (tot, aces) = (tot + 9, aces)"

fun add_cards :: "card list \<Rightarrow> int \<times> nat \<Rightarrow> int \<times> nat" where
  "add_cards [] acc = acc"
| "add_cards (c # cs) acc = add_cards cs (add_card (rank c) acc)"

text \<open>\<^verbatim>\<open>while total > 21 and aces > 0: total -= 10; aces -= 1\<close>\<close>

fun reduce_aces :: "int \<Rightarrow> nat \<Rightarrow> int \<times> nat" where
  "reduce_aces tot 0 = (tot, 0)"
| "reduce_aces tot (Suc aces) =
     (if tot > 21 then reduce_aces (tot - 10) aces else (tot, Suc aces))"

text \<open>The body of the loop of \<^verbatim>\<open>sum_card_values_as_ace_one\<close>: an Ace adds 1.\<close>

fun add_card_ace_one :: "rank \<Rightarrow> int \<Rightarrow> int" where
  "add_card_ace_one RA s = s + 1"
| "add_card_ace_one RT s = s + 10"
| "add_card_ace_one RJ s = s + 10"
| "add_card_ace_one RQ s = s + 10"
| "add_card_ace_one RK s = s + 10"
| "add_card_ace_one R2 s = s + 2"
| "add_card_ace_one R3 s = s + 3"
| "add_card_ace_one R4 s = s + 4"
| "add_card_ace_one R5 s = s + 5"
| "add_card_ace_one R6 s = s + 6"
| "add_card_ace_one R7 s = s + 7"
| "add_card_ace_one R8 s = s + 8"
| "add_card_ace_one R9 s = s + 9"

fun sum_from :: "card list \<Rightarrow> int \<Rightarrow> int" where
  "sum_from [] s = s"
| "sum_from (c # cs) s = sum_from cs (add_card_ace_one (rank c) s)"

definition sum_card_values_as_ace_one :: "card list \<Rightarrow> int" where
  "sum_card_values_as_ace_one cards = sum_from cards 0"

text \<open>\<^verbatim>\<open>any(c.rank == 'A' for c in cards)\<close>\<close>

definition any_ace :: "card list \<Rightarrow> bool" where
  "any_ace cards = list_ex (\<lambda>c. rank c = RA) cards"

text \<open>
  \<^verbatim>\<open>hand_value\<close> returns the total and a flag. The local \<^verbatim>\<open>is_soft\<close> of the source
  (\<open>is_soft_local\<close> below) is computed and then not used: the flag returned is the separate
  expression of the \<^verbatim>\<open>return\<close> statement, which asks for an Ace in the hand,
  \<open>total \<le> 21\<close>, \<open>total - 10 \<ge> 1\<close> and \<open>total - 10 < total\<close>.
\<close>

definition is_soft_local :: "card list \<Rightarrow> int \<Rightarrow> bool" where
  "is_soft_local cards tot =
     (any_ace cards \<and> tot + 0 \<le> 21 \<and> any_ace cards
      \<and> tot \<noteq> sum_card_values_as_ace_one cards)"

definition hand_value :: "card list \<Rightarrow> int \<times> bool" where
  "hand_value cards =
     (let (tot0, aces0) = add_cards cards (0, 0);
          (tot, aces) = reduce_aces tot0 aces0;
          is_soft = is_soft_local cards tot
      in (tot,
          any_ace cards \<and> tot + 0 \<le> 21 \<and> any_ace cards
          \<and> tot - 10 \<ge> 1 \<and> tot - 10 < tot))"

text \<open>\<^verbatim>\<open>is_blackjack\<close>: exactly two cards and value 21.\<close>

definition is_blackjack :: "card list \<Rightarrow> bool" where
  "is_blackjack cards =
     (if length cards \<noteq> 2 then False else fst (hand_value cards) = 21)"

section \<open>Standard input\<close>

text \<open>
  The lines the user types, each kept as what the two prompts make of it after
  \<^verbatim>\<open>strip\<close> and \<^verbatim>\<open>lower\<close>: \<open>q\<close> or \<open>quit\<close>; text that \<^verbatim>\<open>int\<close> parses; \<open>h\<close> or
  \<open>hit\<close>; \<open>s\<close> or \<open>stand\<close>; \<open>d\<close> or \<open>double\<close>; anything else. The six classes are
  disjoint sets of strings.
\<close>

datatype line = Quit_line | Int_line int | Hit_line | Stand_line | Double_line | Other_line

text \<open>
  \<^verbatim>\<open>prompt_bet\<close> returns \<^verbatim>\<open>None\<close> on a quit line and a bet with \<open>1 \<le> bet \<le> chips\<close>
  otherwise; every other line (\<^verbatim>\<open>int\<close> raising inside the \<^verbatim>\<open>try\<close> included) prints
  the message and asks again. At the end of the input \<^verbatim>\<open>input\<close> raises EOFError, which
  the \<^verbatim>\<open>except Exception\<close> clause swallows, so the loop never returns: \<open>NoReturn\<close>.
\<close>

fun prompt_bet :: "int \<Rightarrow> line list \<Rightarrow> error + (int option \<times> line list)" where
  "prompt_bet chips [] = Inl NoReturn"
| "prompt_bet chips (Quit_line # rest) = Inr (None, rest)"
| "prompt_bet chips (Int_line bet # rest) =
     (if 1 \<le> bet \<and> bet \<le> chips then Inr (Some bet, rest) else prompt_bet chips rest)"
| "prompt_bet chips (Hit_line # rest) = prompt_bet chips rest"
| "prompt_bet chips (Stand_line # rest) = prompt_bet chips rest"
| "prompt_bet chips (Double_line # rest) = prompt_bet chips rest"
| "prompt_bet chips (Other_line # rest) = prompt_bet chips rest"

datatype action = Hit | Stand | Double

text \<open>
  \<^verbatim>\<open>prompt_action\<close> has no \<^verbatim>\<open>try\<close>: at the end of the input EOFError leaves the
  function. A double line counts only when \<open>can_double\<close> holds.
\<close>

fun prompt_action :: "bool \<Rightarrow> line list \<Rightarrow> error + (action \<times> line list)" where
  "prompt_action can_double [] = Inl EOFError"
| "prompt_action can_double (Hit_line # rest) = Inr (Hit, rest)"
| "prompt_action can_double (Stand_line # rest) = Inr (Stand, rest)"
| "prompt_action can_double (Double_line # rest) =
     (if can_double then Inr (Double, rest) else prompt_action can_double rest)"
| "prompt_action can_double (Quit_line # rest) = prompt_action can_double rest"
| "prompt_action can_double (Int_line n # rest) = prompt_action can_double rest"
| "prompt_action can_double (Other_line # rest) = prompt_action can_double rest"

section \<open>The dealer\<close>

text \<open>
  \<^verbatim>\<open>dealer_play\<close>: the loop draws while the value is below 17 and leaves through one of
  two \<^verbatim>\<open>break\<close>s otherwise. The deck is mutated by \<^verbatim>\<open>deal\<close>, so the cards left are
  returned with the dealer's hand. \<open>dealer_is_soft\<close> is the expression the loop assigns
  to its local \<^verbatim>\<open>is_soft\<close>.
\<close>

definition dealer_is_soft :: "card list \<Rightarrow> int \<Rightarrow> int \<Rightarrow> bool" where
  "dealer_is_soft dealer_cards v min_val =
     (any_ace dealer_cards \<and> v - min_val \<ge> 10 \<and> v = 17)"

function dealer_play :: "card list \<Rightarrow> card list \<Rightarrow> error + (card list \<times> card list)" where
  "dealer_play deck dealer_cards =
     (let v = fst (hand_value dealer_cards);
          min_val = sum_card_values_as_ace_one dealer_cards;
          is_soft = dealer_is_soft dealer_cards v min_val
      in if v < 17 then
           (case deal deck 1 of
              Inl e \<Rightarrow> Inl e
            | Inr (cs, deck') \<Rightarrow> dealer_play deck' (dealer_cards @ cs))
         else if v = 17 \<and> is_soft then Inr (deck, dealer_cards)
         else Inr (deck, dealer_cards))"
  by pat_completeness auto
termination
  by (relation "measure (\<lambda>(deck, dealer_cards). length deck)")
     (auto split: if_splits)

datatype outcome = Player_bust | Dealer_bust | Player_win | Dealer_win | Push

definition compare_outcome :: "card list \<Rightarrow> card list \<Rightarrow> outcome" where
  "compare_outcome player_cards dealer_cards =
     (let pv = fst (hand_value player_cards);
          dv = fst (hand_value dealer_cards)
      in if pv > 21 then Player_bust
         else if dv > 21 then Dealer_bust
         else if pv > dv then Player_win
         else if dv > pv then Dealer_win
         else Push)"

section \<open>The 3:2 payout\<close>

text \<open>
  \<^verbatim>\<open>int(1.5 * bet)\<close> multiplies in binary64. \<open>round_to_double\<close> rounds a natural number
  to 53 significant bits, to nearest and ties to even, as the conversion of an integer to
  a float and the multiplication both do; \<open>bit_length\<close> is the number of binary digits
  of a number. A number of at most 53 bits is a float as it is; a longer one is rounded to
  a multiple of \<open>q\<close>, the weight of its 53rd bit from the top.
\<close>

fun bit_length :: "nat \<Rightarrow> nat" where
  "bit_length n = (if n = 0 then 0 else Suc (bit_length (n div 2)))"

definition round_to_double :: "nat \<Rightarrow> nat" where
  "round_to_double n =
     (let l = bit_length n in
      if l \<le> 53 then n
      else let q = 2 ^ (l - 53); k = n div q; r = n mod q
           in if 2 * r < q \<or> (2 * r = q \<and> even k) then k * q else (k + 1) * q)"

text \<open>
  The bet becomes the float \<open>x\<close> (OverflowError from \<open>2^1024\<close> on); the product
  \<open>1.5 * x\<close> is \<open>3 * x\<close> halves, rounded again (infinite from \<open>2^1024\<close> on, which
  \<^verbatim>\<open>int\<close> refuses with OverflowError); \<^verbatim>\<open>int\<close> truncates towards zero.
\<close>

definition int_1_5_times :: "int \<Rightarrow> error + int" where
  "int_1_5_times bet =
     (let x = round_to_double (nat \<bar>bet\<bar>) in
      if x \<ge> 2 ^ 1024 then Inl OverflowError
      else let halves = round_to_double (3 * x)
           in if halves \<ge> 2 ^ 1025 then Inl OverflowError
              else Inr (sgn bet * int (halves div 2)))"

section \<open>A round\<close>

text \<open>
  The local variables of \<^verbatim>\<open>play_round\<close> once the bet is placed. \<open>l_deck\<close> is
  \<^verbatim>\<open>deck.cards\<close> and \<open>l_stdin\<close> the input not yet read; \<open>l_doubled\<close> is false until
  the player doubles.
\<close>

record locals =
  l_chips :: int
  l_bet :: int
  l_original_bet :: int
  l_doubled :: bool
  l_deck :: "card list"
  l_player_cards :: "card list"
  l_dealer_cards :: "card list"
  l_stdin :: "line list"

text \<open>
  The \<^verbatim>\<open>while True\<close> loop of the player's actions. It ends by a \<^verbatim>\<open>return\<close> of
  \<^verbatim>\<open>play_round\<close> (a bust) or by a \<^verbatim>\<open>break\<close> (stand, or double without a bust).
\<close>

datatype loop_exit = Returned | Broke

function player_loop :: "locals \<Rightarrow> error + (loop_exit \<times> locals)" where
  "player_loop s =
     (let can_double = (l_chips s - l_bet s \<ge> l_bet s) in
      case prompt_action can_double (l_stdin s) of
        Inl e \<Rightarrow> Inl e
      | Inr (action, rest) \<Rightarrow>
          (case action of
             Hit \<Rightarrow>
               (case deal (l_deck s) 1 of
                  Inl e \<Rightarrow> Inl e
                | Inr (cs, deck') \<Rightarrow>
                    let s1 = s\<lparr>l_stdin := rest, l_deck := deck',
                                l_player_cards := l_player_cards s @ cs\<rparr>
                    in if fst (hand_value (l_player_cards s1)) > 21
                       then Inr (Returned, s1\<lparr>l_chips := l_chips s1 - l_bet s1\<rparr>)
                       else player_loop s1)
           | Double \<Rightarrow>
               (let s1 = s\<lparr>l_stdin := rest, l_chips := l_chips s - l_bet s\<rparr>;
                    s2 = s1\<lparr>l_bet := l_bet s1 * 2\<rparr>;
                    s3 = s2\<lparr>l_doubled := True\<rparr>
                in case deal (l_deck s3) 1 of
                     Inl e \<Rightarrow> Inl e
                   | Inr (cs, deck') \<Rightarrow>
                       let s4 = s3\<lparr>l_deck := deck',
                                   l_player_cards := l_player_cards s3 @ cs\<rparr>
                       in if fst (hand_value (l_player_cards s4)) > 21
                          then Inr (Returned, s4\<lparr>l_chips := l_chips s4 - 0\<rparr>)
                          else Inr (Broke, s4))
           | Stand \<Rightarrow> Inr (Broke, s\<lparr>l_stdin := rest\<rparr>)))"
  by pat_completeness auto
termination
  by (relation "measure (\<lambda>s. length (l_deck s))")
     (auto split: if_splits)

text \<open>
  \<^verbatim>\<open>play_round(chips)\<close>, with the shuffled card list of \<^verbatim>\<open>Deck()\<close> and the lines of
  standard input as parameters. \<open>Quit chips\<close> is \<^verbatim>\<open>return None, chips\<close>; \<open>Played s\<close> is
  \<^verbatim>\<open>return True, chips\<close>, with the locals at that \<^verbatim>\<open>return\<close> (\<open>l_chips s\<close> the chips
  returned).
\<close>

datatype round_result = Quit int | Played locals

text \<open>
  The \<^verbatim>\<open>if\<close> chain on the outcome at the end of \<^verbatim>\<open>play_round\<close>: a bust of the
  player or a win of the dealer takes the bet, a bust of the dealer or a win of the player
  adds it, a push changes nothing.
\<close>

definition resolve :: "locals \<Rightarrow> locals" where
  "resolve s =
     (case compare_outcome (l_player_cards s) (l_dealer_cards s) of
        Player_bust \<Rightarrow> s\<lparr>l_chips := l_chips s - l_bet s\<rparr>
      | Dealer_bust \<Rightarrow> s\<lparr>l_chips := l_chips s + l_bet s\<rparr>
      | Player_win \<Rightarrow> s\<lparr>l_chips := l_chips s + l_bet s\<rparr>
      | Dealer_win \<Rightarrow> s\<lparr>l_chips := l_chips s - l_bet s\<rparr>
      | Push \<Rightarrow> s)"

definition play_round :: "int \<Rightarrow> card list \<Rightarrow> line list \<Rightarrow> error + round_result" where
  "play_round chips cards stdin =
     (case deal cards 2 of
        Inl e \<Rightarrow> Inl e
      | Inr (player_cards, cards1) \<Rightarrow>
     (case deal cards1 2 of
        Inl e \<Rightarrow> Inl e
      | Inr (dealer_cards, cards2) \<Rightarrow>
     (case prompt_bet chips stdin of
        Inl e \<Rightarrow> Inl e
      | Inr (None, rest) \<Rightarrow> Inr (Quit chips)
      | Inr (Some bet, rest) \<Rightarrow>
          (let s = \<lparr>l_chips = chips, l_bet = bet, l_original_bet = bet,
                    l_doubled = False, l_deck = cards2,
                    l_player_cards = player_cards, l_dealer_cards = dealer_cards,
                    l_stdin = rest\<rparr>;
               player_natural = is_blackjack player_cards;
               dealer_natural = is_blackjack dealer_cards
           in if player_natural \<or> dealer_natural then
                (if player_natural \<and> \<not> dealer_natural then
                   (case int_1_5_times bet of
                      Inl e \<Rightarrow> Inl e
                    | Inr payout \<Rightarrow>
                        Inr (Played (s\<lparr>l_chips := chips + (bet + payout)\<rparr>)))
                 else if dealer_natural \<and> \<not> player_natural then
                   Inr (Played (s\<lparr>l_chips := chips - bet\<rparr>))
                 else Inr (Played s))
              else
                (case player_loop s of
                   Inl e \<Rightarrow> Inl e
                 | Inr (Returned, s1) \<Rightarrow> Inr (Played s1)
                 | Inr (Broke, s1) \<Rightarrow>
                     (case dealer_play (l_deck s1) (l_dealer_cards s1) of
                        Inl e \<Rightarrow> Inl e
                      | Inr (deck', dealer_cards') \<Rightarrow>
                          Inr (Played (resolve
                                 (s1\<lparr>l_deck := deck',
                                     l_dealer_cards := dealer_cards'\<rparr>)))))))))"

section \<open>Auxiliary definitions\<close>

text \<open>The number of Aces in a hand: the value of \<^verbatim>\<open>aces\<close> after the first loop.\<close>

definition aces_in :: "card list \<Rightarrow> nat" where
  "aces_in cards = length (filter (\<lambda>c. rank c = RA) cards)"

text \<open>
  The shuffled deck that deals the cards \<open>first\<close> in that order, then the other cards.
\<close>

definition deck_dealing :: "card list \<Rightarrow> card list" where
  "deck_dealing first = rev (first @ filter (\<lambda>c. c \<notin> set first) new_cards)"

text \<open>The pair \<^verbatim>\<open>play_round\<close> returns.\<close>

definition returned :: "round_result \<Rightarrow> bool option \<times> int" where
  "returned r = (case r of Quit c \<Rightarrow> (None, c) | Played s \<Rightarrow> (Some True, l_chips s))"

declare bit_length.simps [simp del]
declare dealer_play.simps [simp del]
declare player_loop.simps [simp del]

section \<open>Hand values\<close>

lemma add_card_ace_one_ge: "s + 1 \<le> add_card_ace_one r s \<and> add_card_ace_one r s \<le> s + 10"
  by (cases r) simp_all

lemma add_card_ace_one_shift: "add_card_ace_one r (s + d) = add_card_ace_one r s + d"
  by (cases r) simp_all

lemma sum_from_shift: "sum_from cs (s + d) = sum_from cs s + d"
  by (induction cs arbitrary: s) (simp_all add: add_card_ace_one_shift)

lemma sum_from_append: "sum_from (xs @ ys) s = sum_from ys (sum_from xs s)"
  by (induction xs arbitrary: s) simp_all

lemma sum_from_length: "s + int (length cs) \<le> sum_from cs s"
proof (induction cs arbitrary: s)
  case Nil
  show ?case by simp
next
  case (Cons c cs)
  have "s + 1 \<le> add_card_ace_one (rank c) s"
    using add_card_ace_one_ge by blast
  moreover have "add_card_ace_one (rank c) s + int (length cs) \<le> sum_from (c # cs) s"
    using Cons.IH by simp
  ultimately show ?case by simp
qed

lemma ace_one_append:
  "sum_card_values_as_ace_one (cs @ [c]) = add_card_ace_one (rank c) (sum_card_values_as_ace_one cs)"
  by (simp add: sum_card_values_as_ace_one_def sum_from_append)

lemma ace_one_length: "int (length cs) \<le> sum_card_values_as_ace_one cs"
  using sum_from_length [of 0 cs] by (simp add: sum_card_values_as_ace_one_def)

lemma add_card_char:
  "add_card r (m + 10 * int a, a) =
     (add_card_ace_one r m + 10 * int (a + (if r = RA then 1 else 0)),
      a + (if r = RA then 1 else 0))"
  by (cases r) simp_all

lemma add_cards_char:
  "add_cards cs (m + 10 * int a, a) =
     (sum_from cs m + 10 * int (a + aces_in cs), a + aces_in cs)"
proof (induction cs arbitrary: m a)
  case Nil
  show ?case by (simp add: aces_in_def)
next
  case (Cons c cs)
  show ?case
    using Cons.IH [of "add_card_ace_one (rank c) m" "a + (if rank c = RA then 1 else 0)"]
    by (simp add: add_card_char aces_in_def del: add_card.simps)
qed

lemma reduce_aces_char:
  "reduce_aces t a = (t', a') \<Longrightarrow>
     a' \<le> a \<and> t' + 10 * int a = t + 10 * int a' \<and> (t' \<le> 21 \<or> a' = 0) \<and> (a' < a \<longrightarrow> 11 < t')"
proof (induction t a rule: reduce_aces.induct)
  case (1 t)
  then show ?case by simp
next
  case (2 t a)
  show ?case
  proof (cases "t > 21")
    case True
    with 2 show ?thesis by auto
  next
    case False
    with 2 show ?thesis by auto
  qed
qed

lemma any_ace_aces_in: "any_ace cs \<longleftrightarrow> 0 < aces_in cs"
  by (induction cs) (auto simp: any_ace_def aces_in_def)

lemma hand_value_char:
  "\<exists>k. k \<le> aces_in cs
     \<and> fst (hand_value cs) = sum_card_values_as_ace_one cs + 10 * int k
     \<and> (fst (hand_value cs) \<le> 21 \<or> k = 0)
     \<and> (k < aces_in cs \<longrightarrow> 11 < fst (hand_value cs))"
proof -
  have a: "add_cards cs (0, 0) = (sum_card_values_as_ace_one cs + 10 * int (aces_in cs), aces_in cs)"
    using add_cards_char [of cs 0 0] by (simp add: sum_card_values_as_ace_one_def)
  obtain t' a' where r: "reduce_aces (sum_card_values_as_ace_one cs + 10 * int (aces_in cs)) (aces_in cs) = (t', a')"
    by (cases "reduce_aces (sum_card_values_as_ace_one cs + 10 * int (aces_in cs)) (aces_in cs)")
  have v: "fst (hand_value cs) = t'"
    by (simp add: hand_value_def a r)
  from reduce_aces_char [OF r] show ?thesis
    unfolding v by (intro exI [of _ a']) auto
qed

lemma ace_one_le_value: "sum_card_values_as_ace_one cs \<le> fst (hand_value cs)"
  using hand_value_char [of cs] by auto

lemma bust_value: "21 < fst (hand_value cs) \<Longrightarrow> fst (hand_value cs) = sum_card_values_as_ace_one cs"
  using hand_value_char [of cs] by auto

lemma hard_value:
  "11 < sum_card_values_as_ace_one cs \<Longrightarrow> fst (hand_value cs) = sum_card_values_as_ace_one cs"
  using hand_value_char [of cs] by auto

lemma hand_length_le_value: "int (length cs) \<le> fst (hand_value cs)"
  using ace_one_length [of cs] ace_one_le_value [of cs] by simp

section \<open>Dealing and the dealer\<close>

lemma deal_one: "deal cards 1 = (if cards = [] then Inl IndexError else Inr ([last cards], butlast cards))"
  unfolding One_nat_def by simp

lemma deal_two:
  "deal cards 2 =
     (if length cards < 2 then Inl IndexError
      else Inr ([last cards, last (butlast cards)], butlast (butlast cards)))"
  by (cases cards rule: rev_cases) (auto simp: numeral_2_eq_2 split: sum.splits)

lemma dealer_play_unfold:
  "dealer_play deck dealer_cards =
     (if fst (hand_value dealer_cards) < 17 then
        (if deck = [] then Inl IndexError
         else dealer_play (butlast deck) (dealer_cards @ [last deck]))
      else Inr (deck, dealer_cards))"
  by (subst dealer_play.simps) (simp add: deal_one Let_def)

lemma dealer_play_stops:
  "17 \<le> fst (hand_value dealer_cards) \<Longrightarrow> dealer_play deck dealer_cards = Inr (deck, dealer_cards)"
  by (subst dealer_play_unfold) simp

lemma dealer_play_returns:
  "17 \<le> sum_card_values_as_ace_one dealer_cards + int (length deck) \<Longrightarrow>
     \<exists>deck' cards'. dealer_play deck dealer_cards = Inr (deck', cards')"
proof (induction deck dealer_cards rule: dealer_play.induct)
  case (1 deck dealer_cards)
  show ?case
  proof (cases "fst (hand_value dealer_cards) < 17")
    case False
    then show ?thesis by (subst dealer_play_unfold) simp
  next
    case True
    have m: "sum_card_values_as_ace_one dealer_cards < 17"
      using True ace_one_le_value [of dealer_cards] by simp
    with "1.prems" have ne: "deck \<noteq> []" by auto
    have d: "deal deck 1 = Inr ([last deck], butlast deck)"
      using ne by (simp add: deal_one)
    have "17 \<le> sum_card_values_as_ace_one (dealer_cards @ [last deck]) + int (length (butlast deck))"
    proof -
      have a: "sum_card_values_as_ace_one dealer_cards + 1
                 \<le> add_card_ace_one (rank (last deck)) (sum_card_values_as_ace_one dealer_cards)"
        using add_card_ace_one_ge by blast
      have l: "int (length (butlast deck)) = int (length deck) - 1"
        using ne by (cases deck rule: rev_cases) simp_all
      show ?thesis
        unfolding ace_one_append using a l "1.prems" by linarith
    qed
    then have "\<exists>deck' cards'. dealer_play (butlast deck) (dealer_cards @ [last deck]) = Inr (deck', cards')"
      using "1.IH" [OF refl refl refl True d refl] by simp
    then show ?thesis
      using True ne by (subst dealer_play_unfold) simp
  qed
qed

lemma dealer_play_result:
  "dealer_play deck dealer_cards = Inr (deck', cards') \<Longrightarrow>
     length deck' + length cards' = length deck + length dealer_cards
     \<and> length deck' \<le> length deck
     \<and> (cards' = dealer_cards \<or> length cards' \<le> 17)
     \<and> 17 \<le> fst (hand_value cards')"
proof (induction deck dealer_cards rule: dealer_play.induct)
  case (1 deck dealer_cards)
  show ?case
  proof (cases "fst (hand_value dealer_cards) < 17")
    case False
    with "1.prems" show ?thesis by (simp add: dealer_play_stops)
  next
    case True
    from "1.prems" True have ne: "deck \<noteq> []"
      by (subst (asm) dealer_play_unfold) (auto split: if_splits)
    have d: "deal deck 1 = Inr ([last deck], butlast deck)"
      using ne by (simp add: deal_one)
    from "1.prems" True ne
    have r: "dealer_play (butlast deck) (dealer_cards @ [last deck]) = Inr (deck', cards')"
      by (subst (asm) dealer_play_unfold) simp
    note ih = "1.IH" [OF refl refl refl True d refl r]
    have "int (length dealer_cards) < 17"
      using True hand_length_le_value [of dealer_cards] by simp
    then have "length (dealer_cards @ [last deck]) \<le> 17" by simp
    with ih ne show ?thesis by auto
  qed
qed

lemma dealer_play_error:
  "dealer_play deck dealer_cards = Inl e \<Longrightarrow> e = IndexError"
proof (induction deck dealer_cards rule: dealer_play.induct)
  case (1 deck dealer_cards)
  show ?case
  proof (cases "fst (hand_value dealer_cards) < 17")
    case False
    with "1.prems" show ?thesis by (simp add: dealer_play_stops)
  next
    case True
    show ?thesis
    proof (cases "deck = []")
      case True
      with "1.prems" \<open>fst (hand_value dealer_cards) < 17\<close> show ?thesis
        by (subst (asm) dealer_play_unfold) simp
    next
      case False
      have d: "deal deck 1 = Inr ([last deck], butlast deck)"
        using False by (simp add: deal_one)
      from "1.prems" True False
      have r: "dealer_play (butlast deck) (dealer_cards @ [last deck]) = Inl e"
        by (subst (asm) dealer_play_unfold) simp
      show ?thesis using "1.IH" [OF refl refl refl True d refl r] .
    qed
  qed
qed


lemma dealer_play_draws:
  "fst (hand_value dealer_cards) < 17 \<Longrightarrow> deck \<noteq> [] \<Longrightarrow>
     dealer_play deck dealer_cards = dealer_play (butlast deck) (dealer_cards @ [last deck])"
  by (subst dealer_play_unfold) simp

lemma ace_one_grows:
  "sum_card_values_as_ace_one cs < sum_card_values_as_ace_one (cs @ [c])"
  using add_card_ace_one_ge [of "sum_card_values_as_ace_one cs" "rank c"]
  by (simp add: ace_one_append)

lemma ace_as_eleven_iff:
  "(any_ace cs \<and> fst (hand_value cs) - sum_card_values_as_ace_one cs \<ge> 10)
     = is_soft_local cs (fst (hand_value cs))"
  using hand_value_char [of cs] by (auto simp: is_soft_local_def any_ace_aces_in)

lemma sum_from_upper: "sum_from cs s \<le> s + 10 * int (length cs)"
proof (induction cs arbitrary: s)
  case Nil
  show ?case by simp
next
  case (Cons c cs)
  have "add_card_ace_one (rank c) s \<le> s + 10"
    using add_card_ace_one_ge by blast
  moreover have "sum_from (c # cs) s \<le> add_card_ace_one (rank c) s + 10 * int (length cs)"
    using Cons.IH by simp
  ultimately show ?case by simp
qed

lemma two_cards_value: "length cs = 2 \<Longrightarrow> fst (hand_value cs) \<le> 21"
proof -
  assume l: "length cs = 2"
  have "sum_card_values_as_ace_one cs \<le> 20"
    using sum_from_upper [of cs 0] l by (simp add: sum_card_values_as_ace_one_def)
  then show ?thesis
    using hand_value_char [of cs] by auto
qed

section \<open>Prompts and the player's loop\<close>

lemma deal_two_result:
  "deal cards 2 = Inr (cs, rest) \<Longrightarrow> length cs = 2 \<and> length rest + 2 = length cards"
  by (auto simp: deal_two split: if_splits)

lemma deal_two_error: "deal cards 2 = Inl e \<Longrightarrow> length cards < 2"
  by (auto simp: deal_two split: if_splits)

lemma prompt_bet_range:
  "prompt_bet chips stdin = Inr (Some bet, rest) \<Longrightarrow> 1 \<le> bet \<and> bet \<le> chips"
  by (induction chips stdin rule: prompt_bet.induct) (auto split: if_splits)

lemma prompt_bet_error: "prompt_bet chips stdin = Inl e \<Longrightarrow> e = NoReturn"
  by (induction chips stdin rule: prompt_bet.induct) (auto split: if_splits)

lemma prompt_action_error: "prompt_action can_double stdin = Inl e \<Longrightarrow> e = EOFError"
  by (induction can_double stdin rule: prompt_action.induct) (auto split: if_splits)

lemma player_loop_unfold:
  "player_loop s =
     (case prompt_action (l_chips s - l_bet s \<ge> l_bet s) (l_stdin s) of
        Inl e \<Rightarrow> Inl e
      | Inr (Hit, rest) \<Rightarrow>
          (if l_deck s = [] then Inl IndexError
           else if 21 < fst (hand_value (l_player_cards s @ [last (l_deck s)]))
           then Inr (Returned, s\<lparr>l_stdin := rest, l_deck := butlast (l_deck s),
                       l_player_cards := l_player_cards s @ [last (l_deck s)],
                       l_chips := l_chips s - l_bet s\<rparr>)
           else player_loop (s\<lparr>l_stdin := rest, l_deck := butlast (l_deck s),
                       l_player_cards := l_player_cards s @ [last (l_deck s)]\<rparr>))
      | Inr (Double, rest) \<Rightarrow>
          (if l_deck s = [] then Inl IndexError
           else Inr (if 21 < fst (hand_value (l_player_cards s @ [last (l_deck s)]))
                     then Returned else Broke,
                     s\<lparr>l_stdin := rest, l_chips := l_chips s - l_bet s,
                        l_bet := l_bet s * 2, l_doubled := True,
                        l_deck := butlast (l_deck s),
                        l_player_cards := l_player_cards s @ [last (l_deck s)]\<rparr>))
      | Inr (Stand, rest) \<Rightarrow> Inr (Broke, s\<lparr>l_stdin := rest\<rparr>))"
  by (subst player_loop.simps)
     (simp add: deal_one Let_def split: sum.splits prod.splits action.splits)


lemma player_loop_result:
  "player_loop s = Inr (ex, s') \<Longrightarrow> fst (hand_value (l_player_cards s)) \<le> 21 \<Longrightarrow>
   \<not> l_doubled s \<Longrightarrow>
     length (l_deck s') + length (l_player_cards s')
       = length (l_deck s) + length (l_player_cards s)
     \<and> length (l_player_cards s') \<le> 22
     \<and> l_dealer_cards s' = l_dealer_cards s
     \<and> l_original_bet s' = l_original_bet s
     \<and> (ex = Broke \<longrightarrow> fst (hand_value (l_player_cards s')) \<le> 21)
     \<and> (ex = Returned \<longrightarrow> 21 < fst (hand_value (l_player_cards s')))
     \<and> (l_doubled s' \<longrightarrow>
           l_chips s' = l_chips s - l_bet s \<and> l_bet s' = l_bet s * 2
           \<and> l_bet s \<le> l_chips s - l_bet s)
     \<and> (\<not> l_doubled s' \<longrightarrow>
           l_bet s' = l_bet s
           \<and> (ex = Broke \<longrightarrow> l_chips s' = l_chips s)
           \<and> (ex = Returned \<longrightarrow> l_chips s' = l_chips s - l_bet s))"
proof (induction "length (l_deck s)" arbitrary: s rule: less_induct)
  case less
  have len: "length (l_player_cards s) \<le> 21"
    using hand_length_le_value [of "l_player_cards s"] less.prems(2) by simp
  obtain a rest where pa: "prompt_action (l_chips s - l_bet s \<ge> l_bet s) (l_stdin s) = Inr (a, rest)"
    using less.prems(1) by (subst (asm) player_loop_unfold) (auto split: sum.splits)
  show ?case
  proof (cases a)
    case Stand
    with less.prems pa len show ?thesis
      by (subst (asm) player_loop_unfold) auto
  next
    case Double
    have cd: "l_bet s \<le> l_chips s - l_bet s"
    proof (rule ccontr)
      assume n: "\<not> l_bet s \<le> l_chips s - l_bet s"
      have "\<And>inp r. prompt_action False inp \<noteq> Inr (Double, r)"
      proof -
        fix inp r show "prompt_action False inp \<noteq> Inr (Double, r)"
          by (induction False inp rule: prompt_action.induct) auto
      qed
      with pa Double n show False by simp
    qed
    from less.prems pa len Double cd show ?thesis
      by (subst (asm) player_loop_unfold) (auto split: if_splits)
  next
    case Hit
    from less.prems(1) pa Hit have ne: "l_deck s \<noteq> []"
      by (subst (asm) player_loop_unfold) (auto split: if_splits)
    let ?p = "l_player_cards s @ [last (l_deck s)]"
    show ?thesis
    proof (cases "21 < fst (hand_value ?p)")
      case True
      with less.prems pa len Hit ne show ?thesis
        by (subst (asm) player_loop_unfold) auto
    next
      case False
      let ?s1 = "s\<lparr>l_stdin := rest, l_deck := butlast (l_deck s), l_player_cards := ?p\<rparr>"
      from less.prems(1) pa Hit ne False have r: "player_loop ?s1 = Inr (ex, s')"
        by (subst (asm) player_loop_unfold) simp
      have sh: "length (l_deck ?s1) < length (l_deck s)"
        using ne by simp
      have v: "fst (hand_value (l_player_cards ?s1)) \<le> 21"
        using False by simp
      have nd: "\<not> l_doubled ?s1"
        using less.prems(3) by simp
      have l: "length (l_deck ?s1) + length (l_player_cards ?s1)
                 = length (l_deck s) + length (l_player_cards s)"
        using ne by simp
      from less.hyps [OF sh r v nd] l show ?thesis by simp
    qed
  qed
qed

lemma player_loop_error:
  "player_loop s = Inl e \<Longrightarrow> fst (hand_value (l_player_cards s)) \<le> 21 \<Longrightarrow>
   22 \<le> length (l_deck s) + length (l_player_cards s) \<Longrightarrow> e = EOFError"
proof (induction "length (l_deck s)" arbitrary: s rule: less_induct)
  case less
  have len: "length (l_player_cards s) \<le> 21"
    using hand_length_le_value [of "l_player_cards s"] less.prems(2) by simp
  with less.prems(3) have ne: "l_deck s \<noteq> []" by auto
  show ?case
  proof (cases "prompt_action (l_chips s - l_bet s \<ge> l_bet s) (l_stdin s)")
    case (Inl e')
    with less.prems(1) have "e = e'"
      by (subst (asm) player_loop_unfold) simp
    with Inl show ?thesis using prompt_action_error by blast
  next
    case (Inr x)
    obtain a rest where x: "x = (a, rest)" by (cases x)
    show ?thesis
    proof (cases a)
      case Stand
      with less.prems(1) Inr x show ?thesis
        by (subst (asm) player_loop_unfold) simp
    next
      case Double
      with less.prems(1) Inr x ne show ?thesis
        by (subst (asm) player_loop_unfold) simp
    next
      case Hit
      let ?p = "l_player_cards s @ [last (l_deck s)]"
      let ?s1 = "s\<lparr>l_stdin := rest, l_deck := butlast (l_deck s), l_player_cards := ?p\<rparr>"
      from less.prems(1) Inr x Hit ne
      have nb: "\<not> 21 < fst (hand_value ?p)" and r: "player_loop ?s1 = Inl e"
        by (subst (asm) player_loop_unfold, simp split: if_splits)+
      have sh: "length (l_deck ?s1) < length (l_deck s)"
        using ne by simp
      have v: "fst (hand_value (l_player_cards ?s1)) \<le> 21"
        using nb by simp
      have l: "22 \<le> length (l_deck ?s1) + length (l_player_cards ?s1)"
        using ne less.prems(3) by simp
      from less.hyps [OF sh r v l] show ?thesis .
    qed
  qed
qed


section \<open>The structure of a round\<close>

lemma int_1_5_times_error: "int_1_5_times bet = Inl e \<Longrightarrow> e = OverflowError"
  by (auto simp: int_1_5_times_def Let_def split: if_splits)

lemma resolve_fields:
  "l_deck (resolve s) = l_deck s \<and> l_player_cards (resolve s) = l_player_cards s
   \<and> l_dealer_cards (resolve s) = l_dealer_cards s \<and> l_bet (resolve s) = l_bet s
   \<and> l_original_bet (resolve s) = l_original_bet s \<and> l_doubled (resolve s) = l_doubled s"
  by (simp add: resolve_def split: outcome.splits)

lemma play_round_Played:
  "play_round chips cards stdin = Inr (Played s) \<Longrightarrow>
   \<exists>pc c1 dc c2 bet rest.
     deal cards 2 = Inr (pc, c1) \<and> deal c1 2 = Inr (dc, c2)
     \<and> prompt_bet chips stdin = Inr (Some bet, rest)
     \<and> (((is_blackjack pc \<or> is_blackjack dc)
          \<and> (\<exists>c. s = \<lparr>l_chips = c, l_bet = bet, l_original_bet = bet, l_doubled = False,
                      l_deck = c2, l_player_cards = pc, l_dealer_cards = dc,
                      l_stdin = rest\<rparr>))
         \<or> (\<not> is_blackjack pc \<and> \<not> is_blackjack dc
            \<and> (player_loop \<lparr>l_chips = chips, l_bet = bet, l_original_bet = bet,
                    l_doubled = False, l_deck = c2, l_player_cards = pc,
                    l_dealer_cards = dc, l_stdin = rest\<rparr> = Inr (Returned, s)
                \<or> (\<exists>s1 deck' dc'.
                     player_loop \<lparr>l_chips = chips, l_bet = bet, l_original_bet = bet,
                       l_doubled = False, l_deck = c2, l_player_cards = pc,
                       l_dealer_cards = dc, l_stdin = rest\<rparr> = Inr (Broke, s1)
                     \<and> dealer_play (l_deck s1) (l_dealer_cards s1) = Inr (deck', dc')
                     \<and> s = resolve (s1\<lparr>l_deck := deck', l_dealer_cards := dc'\<rparr>)))))"
  unfolding play_round_def
  by (auto simp: Let_def split: sum.splits prod.splits option.splits if_splits loop_exit.splits)

lemma play_round_IndexError:
  "play_round chips cards stdin = Inl IndexError \<Longrightarrow>
     deal cards 2 = Inl IndexError
     \<or> (\<exists>pc c1. deal cards 2 = Inr (pc, c1)
          \<and> (deal c1 2 = Inl IndexError
              \<or> (\<exists>dc c2 bet rest. deal c1 2 = Inr (dc, c2)
                   \<and> prompt_bet chips stdin = Inr (Some bet, rest)
                   \<and> (player_loop \<lparr>l_chips = chips, l_bet = bet, l_original_bet = bet,
                          l_doubled = False, l_deck = c2, l_player_cards = pc,
                          l_dealer_cards = dc, l_stdin = rest\<rparr> = Inl IndexError
                       \<or> (\<exists>s1.
                            player_loop \<lparr>l_chips = chips, l_bet = bet, l_original_bet = bet,
                              l_doubled = False, l_deck = c2, l_player_cards = pc,
                              l_dealer_cards = dc, l_stdin = rest\<rparr> = Inr (Broke, s1)
                            \<and> dealer_play (l_deck s1) (l_dealer_cards s1)
                                = Inl IndexError)))))"
  unfolding play_round_def
  by (auto simp: Let_def split: sum.splits prod.splits option.splits if_splits loop_exit.splits
           dest: int_1_5_times_error prompt_bet_error)


section \<open>The deck within a round\<close>

lemma length_new_cards: "length new_cards = 52"
  by (simp add: new_cards_def RANKS_def SUITS_def)

lemma distinct_new_cards: "distinct new_cards"
  by (simp add: new_cards_def RANKS_def SUITS_def)

lemma shuffled_length: "shuffled cards \<Longrightarrow> length cards = 52"
  using mset_eq_length [of cards new_cards] by (simp add: shuffled_def length_new_cards)

lemma shuffled_iff: "shuffled cards \<longleftrightarrow> distinct cards \<and> set cards = set new_cards"
proof
  assume "shuffled cards"
  then have m: "mset cards = mset new_cards" by (simp add: shuffled_def)
  from m have "distinct cards"
    using distinct_new_cards mset_eq_imp_distinct_iff by blast
  moreover from m have "set cards = set new_cards"
    by (rule mset_eq_setD)
  ultimately show "distinct cards \<and> set cards = set new_cards" ..
next
  assume "distinct cards \<and> set cards = set new_cards"
  then show "shuffled cards"
    using distinct_new_cards set_eq_iff_mset_eq_distinct [of cards new_cards]
    by (simp add: shuffled_def)
qed

lemma round_cards_bound:
  assumes len: "length cards = 52"
    and r: "play_round chips cards stdin = Inr (Played s)"
  shows "length (l_player_cards s) + length (l_dealer_cards s) + length (l_deck s) = 52
         \<and> length (l_player_cards s) + length (l_dealer_cards s) \<le> 39"
proof -
  from play_round_Played [OF r] obtain pc c1 dc c2 bet rest
    where d1: "deal cards 2 = Inr (pc, c1)" and d2: "deal c1 2 = Inr (dc, c2)"
      and rest: "((is_blackjack pc \<or> is_blackjack dc)
          \<and> (\<exists>c. s = \<lparr>l_chips = c, l_bet = bet, l_original_bet = bet, l_doubled = False,
                      l_deck = c2, l_player_cards = pc, l_dealer_cards = dc,
                      l_stdin = rest\<rparr>))
         \<or> (\<not> is_blackjack pc \<and> \<not> is_blackjack dc
            \<and> (player_loop \<lparr>l_chips = chips, l_bet = bet, l_original_bet = bet,
                    l_doubled = False, l_deck = c2, l_player_cards = pc,
                    l_dealer_cards = dc, l_stdin = rest\<rparr> = Inr (Returned, s)
                \<or> (\<exists>s1 deck' dc'.
                     player_loop \<lparr>l_chips = chips, l_bet = bet, l_original_bet = bet,
                       l_doubled = False, l_deck = c2, l_player_cards = pc,
                       l_dealer_cards = dc, l_stdin = rest\<rparr> = Inr (Broke, s1)
                     \<and> dealer_play (l_deck s1) (l_dealer_cards s1) = Inr (deck', dc')
                     \<and> s = resolve (s1\<lparr>l_deck := deck', l_dealer_cards := dc'\<rparr>))))"
    by blast
  let ?s0 = "\<lparr>l_chips = chips, l_bet = bet, l_original_bet = bet,
                    l_doubled = False, l_deck = c2, l_player_cards = pc,
                    l_dealer_cards = dc, l_stdin = rest\<rparr>"
  from deal_two_result [OF d1] len have lp: "length pc = 2" and l1: "length c1 = 50" by auto
  from deal_two_result [OF d2] l1 have ld: "length dc = 2" and l2: "length c2 = 48" by auto
  have v0: "fst (hand_value (l_player_cards ?s0)) \<le> 21"
    using two_cards_value [OF lp] by simp
  have nd: "\<not> l_doubled ?s0" by simp
  from rest consider
      (natural) c where "s = \<lparr>l_chips = c, l_bet = bet, l_original_bet = bet,
                      l_doubled = False, l_deck = c2, l_player_cards = pc,
                      l_dealer_cards = dc, l_stdin = rest\<rparr>"
    | (bust) "player_loop ?s0 = Inr (Returned, s)"
    | (final) s1 deck' dc' where "player_loop ?s0 = Inr (Broke, s1)"
        "dealer_play (l_deck s1) (l_dealer_cards s1) = Inr (deck', dc')"
        "s = resolve (s1\<lparr>l_deck := deck', l_dealer_cards := dc'\<rparr>)"
    by blast
  then show ?thesis
  proof cases
    case natural
    then show ?thesis using lp ld l2 by simp
  next
    case bust
    from player_loop_result [OF bust v0 nd] show ?thesis
      using lp ld l2 by simp
  next
    case final
    from player_loop_result [OF final(1) v0 nd]
    have a: "length (l_deck s1) + length (l_player_cards s1) = 50"
      and b: "length (l_player_cards s1) \<le> 22"
      and c: "l_dealer_cards s1 = dc"
      using lp l2 by simp_all
    from dealer_play_result [OF final(2)]
    have d: "length deck' + length dc' = length (l_deck s1) + 2"
      and e: "dc' = dc \<or> length dc' \<le> 17"
      using c ld by simp_all
    from e ld have f: "length dc' \<le> 17" by auto
    show ?thesis
      unfolding final(3) using a b d f by (simp add: resolve_fields)
  qed
qed

lemma round_no_index_error:
  assumes len: "length cards = 52"
  shows "play_round chips cards stdin \<noteq> Inl IndexError"
proof
  assume r: "play_round chips cards stdin = Inl IndexError"
  have d1: "deal cards 2 = Inr ([last cards, last (butlast cards)], butlast (butlast cards))"
    using len by (simp add: deal_two)
  have l1: "length (butlast (butlast cards)) = 50" using len by simp
  let ?c1 = "butlast (butlast cards)"
  have d2: "deal ?c1 2 = Inr ([last ?c1, last (butlast ?c1)], butlast (butlast ?c1))"
    using l1 by (simp add: deal_two)
  from play_round_IndexError [OF r] d1 d2 obtain bet rest s0
    where s0: "s0 = \<lparr>l_chips = chips, l_bet = bet, l_original_bet = bet,
                    l_doubled = False, l_deck = butlast (butlast ?c1),
                    l_player_cards = [last cards, last (butlast cards)],
                    l_dealer_cards = [last ?c1, last (butlast ?c1)], l_stdin = rest\<rparr>"
      and alt: "player_loop s0 = Inl IndexError
         \<or> (\<exists>s1. player_loop s0 = Inr (Broke, s1)
               \<and> dealer_play (l_deck s1) (l_dealer_cards s1) = Inl IndexError)"
    by auto
  have v0: "fst (hand_value (l_player_cards s0)) \<le> 21"
    using two_cards_value [of "l_player_cards s0"] by (simp add: s0)
  have nd: "\<not> l_doubled s0" by (simp add: s0)
  have big: "22 \<le> length (l_deck s0) + length (l_player_cards s0)"
    using l1 by (simp add: s0)
  from alt show False
  proof
    assume "player_loop s0 = Inl IndexError"
    from player_loop_error [OF this v0 big] show False by simp
  next
    assume "\<exists>s1. player_loop s0 = Inr (Broke, s1)
               \<and> dealer_play (l_deck s1) (l_dealer_cards s1) = Inl IndexError"
    then obtain s1 where p: "player_loop s0 = Inr (Broke, s1)"
      and d: "dealer_play (l_deck s1) (l_dealer_cards s1) = Inl IndexError" by blast
    from player_loop_result [OF p v0 nd]
    have "length (l_deck s1) + length (l_player_cards s1) = 50"
      and "length (l_player_cards s1) \<le> 22"
      using l1 by (simp_all add: s0)
    then have "17 \<le> sum_card_values_as_ace_one (l_dealer_cards s1) + int (length (l_deck s1))"
      using ace_one_length [of "l_dealer_cards s1"] by simp
    from dealer_play_returns [OF this] d show False by simp
  qed
qed


lemma played_caseD:
  "(case r of Inr (Played s) \<Rightarrow> P s | _ \<Rightarrow> False) \<Longrightarrow> \<exists>s. r = Inr (Played s) \<and> P s"
  by (auto split: sum.splits round_result.splits)

section \<open>The payout below the rounding threshold\<close>

lemma bit_length_le: "bit_length n \<le> k \<longleftrightarrow> n < 2 ^ k"
proof (induction n arbitrary: k rule: bit_length.induct)
  case (1 n)
  show ?case
  proof (cases "n = 0")
    case True
    then show ?thesis by (subst bit_length.simps) simp
  next
    case False
    show ?thesis
    proof (cases k)
      case 0
      with False show ?thesis by (subst bit_length.simps) simp
    next
      case (Suc j)
      have "bit_length n \<le> Suc j \<longleftrightarrow> bit_length (n div 2) \<le> j"
        using False by (subst bit_length.simps) simp
      also have "\<dots> \<longleftrightarrow> n div 2 < 2 ^ j"
        using "1.IH" [OF False] .
      also have "\<dots> \<longleftrightarrow> n < 2 ^ Suc j"
        by auto
      finally show ?thesis using Suc by simp
    qed
  qed
qed

lemma round_to_double_ties:
  "round_to_double (2 ^ 53 + 1) = 2 ^ 53 \<and> round_to_double (2 ^ 53 + 3) = 2 ^ 53 + 4
   \<and> round_to_double (2 ^ 53 + 2) = 2 ^ 53 + 2"
  by (simp add: round_to_double_def Let_def bit_length.simps)

lemma round_to_double_small: "n < 2 ^ 53 \<Longrightarrow> round_to_double n = n"
  by (simp add: round_to_double_def bit_length_le)

lemma payout_exact:
  assumes "0 \<le> bet" and "3 * bet < 2 ^ 53"
  shows "int_1_5_times bet = Inr ((3 * bet) div 2)"
proof -
  have n: "3 * nat bet < 2 ^ 53"
  proof -
    have "int (3 * nat bet) < int (2 ^ 53)"
      using assms by simp
    then show ?thesis
      unfolding of_nat_less_iff .
  qed
  then have m: "nat bet < 2 ^ 53" by simp
  have a: "round_to_double (nat \<bar>bet\<bar>) = nat bet"
    using assms(1) m by (simp add: round_to_double_small)
  have b: "round_to_double (3 * nat bet) = 3 * nat bet"
    using n by (rule round_to_double_small)
  have c: "nat bet < 2 ^ 1024"
    using m by (rule less_trans) simp
  have d: "3 * nat bet < 2 ^ 1025"
    using n by (rule less_trans) simp
  have e: "sgn bet * int (3 * nat bet div 2) = 3 * bet div 2"
  proof (cases "bet = 0")
    case True
    then show ?thesis by simp
  next
    case False
    with assms(1) have "0 < bet" by simp
    then show ?thesis by (simp add: zdiv_int)
  qed
  show ?thesis
    unfolding int_1_5_times_def Let_def a b
    using c d e by (simp add: not_le [symmetric] del: not_le)
qed

lemma natural_round:
  assumes "deal cards 2 = Inr (pc, c1)" and "deal c1 2 = Inr (dc, c2)"
    and "prompt_bet chips stdin = Inr (Some bet, rest)"
    and "is_blackjack pc" and "\<not> is_blackjack dc"
    and "int_1_5_times bet = Inr payout"
  shows "play_round chips cards stdin =
           Inr (Played \<lparr>l_chips = chips + (bet + payout), l_bet = bet, l_original_bet = bet,
                  l_doubled = False, l_deck = c2, l_player_cards = pc,
                  l_dealer_cards = dc, l_stdin = rest\<rparr>)"
  using assms by (simp add: play_round_def)

section \<open>The softness flag\<close>

text \<open>
  C3. The flag \<^verbatim>\<open>hand_value\<close> returns should be true exactly when the hand has an Ace,
  the total is at most 21 and an Ace still counts as 11; the claim names \<open>[A, A]\<close> as
  \<open>(12, true)\<close>, \<open>[A, K]\<close> as \<open>(21, true)\<close> and \<open>[A, 6, 6]\<close> as \<open>(13, false)\<close>. The
  first two hold. On \<open>[A, 6, 6]\<close> the Ace is counted as 1 (the total 13 is the sum with
  the Ace as 1, and the unused local \<^verbatim>\<open>is_soft\<close> is false), yet the flag returned is
  true.
\<close>

theorem hand_value_flag_ace_six_six:
  "hand_value [Card RA Spades, Card RA Hearts] = (12, True)
   \<and> hand_value [Card RA Spades, Card RK Hearts] = (21, True)
   \<and> hand_value [Card RA Spades, Card R6 Hearts, Card R6 Clubs] = (13, True)
   \<and> sum_card_values_as_ace_one [Card RA Spades, Card R6 Hearts, Card R6 Clubs] = 13
   \<and> is_soft_local [Card RA Spades, Card R6 Hearts, Card R6 Clubs] 13 = False"
  by (simp add: hand_value_def any_ace_def is_soft_local_def sum_card_values_as_ace_one_def)

text \<open>
  C6. The softness test of \<^verbatim>\<open>dealer_play\<close> should agree with the flag of
  \<^verbatim>\<open>hand_value\<close>. On the hard 17 \<open>[A, 6, K]\<close> the dealer's test is false (the total
  equals the sum with the Ace as 1) and the flag of \<^verbatim>\<open>hand_value\<close> is true.
\<close>

theorem dealer_soft_test_differs_from_flag:
  "fst (hand_value [Card RA Spades, Card R6 Hearts, Card RK Clubs]) = 17
   \<and> sum_card_values_as_ace_one [Card RA Spades, Card R6 Hearts, Card RK Clubs] = 17
   \<and> dealer_is_soft [Card RA Spades, Card R6 Hearts, Card RK Clubs] 17 17 = False
   \<and> snd (hand_value [Card RA Spades, Card R6 Hearts, Card RK Clubs]) = True"
  by (simp add: hand_value_def any_ace_def dealer_is_soft_def sum_card_values_as_ace_one_def)

section \<open>The dealer's policy\<close>

text \<open>
  C7. \<^verbatim>\<open>dealer_play\<close> draws one card and repeats while the total is below 17, and
  returns the hand as it is when the total is 17 and soft, and whenever the total is 17
  or more. The soft 17 \<open>[A, 6]\<close> is returned unchanged. On a hard 16 (total 16 with every
  Ace counted as 1) one card is drawn from a shoe that has one, and the dealer stops
  there.
\<close>

theorem dealer_play_policy:
  "(fst (hand_value dealer_cards) < 17 \<longrightarrow>
      dealer_play deck dealer_cards =
        (case deal deck 1 of
           Inl e \<Rightarrow> Inl e
         | Inr (cs, deck') \<Rightarrow> dealer_play deck' (dealer_cards @ cs)))
   \<and> (fst (hand_value dealer_cards) < 17 \<and> deck \<noteq> [] \<longrightarrow>
      dealer_play deck dealer_cards = dealer_play (butlast deck) (dealer_cards @ [last deck]))
   \<and> (hand_value dealer_cards = (17, True) \<longrightarrow>
      dealer_play deck dealer_cards = Inr (deck, dealer_cards))
   \<and> (17 \<le> fst (hand_value dealer_cards) \<longrightarrow>
      dealer_play deck dealer_cards = Inr (deck, dealer_cards))
   \<and> hand_value [Card RA s1, Card R6 s2] = (17, True)
   \<and> dealer_play deck [Card RA s1, Card R6 s2] = Inr (deck, [Card RA s1, Card R6 s2])
   \<and> (sum_card_values_as_ace_one dealer_cards = 16 \<and> deck \<noteq> [] \<longrightarrow>
      fst (hand_value dealer_cards) = 16
      \<and> dealer_play deck dealer_cards = Inr (butlast deck, dealer_cards @ [last deck]))"
proof -
  have draw: "fst (hand_value dealer_cards) < 17 \<longrightarrow>
      dealer_play deck dealer_cards =
        (case deal deck 1 of
           Inl e \<Rightarrow> Inl e
         | Inr (cs, deck') \<Rightarrow> dealer_play deck' (dealer_cards @ cs))"
    by (subst dealer_play.simps) (simp add: Let_def)
  have soft: "hand_value [Card RA s1, Card R6 s2] = (17, True)"
    by (simp add: hand_value_def any_ace_def)
  have hard: "fst (hand_value dealer_cards) = 16
      \<and> dealer_play deck dealer_cards = Inr (butlast deck, dealer_cards @ [last deck])"
    if m: "sum_card_values_as_ace_one dealer_cards = 16" and ne: "deck \<noteq> []"
  proof -
    have v: "fst (hand_value dealer_cards) = 16"
      using hard_value [of dealer_cards] m by simp
    have "16 < sum_card_values_as_ace_one (dealer_cards @ [last deck])"
      using ace_one_grows [of dealer_cards "last deck"] m by simp
    then have "17 \<le> fst (hand_value (dealer_cards @ [last deck]))"
      using ace_one_le_value [of "dealer_cards @ [last deck]"] by simp
    then show ?thesis
      using v ne by (simp add: dealer_play_draws dealer_play_stops)
  qed
  have more: "fst (hand_value dealer_cards) < 17 \<and> deck \<noteq> [] \<longrightarrow>
      dealer_play deck dealer_cards = dealer_play (butlast deck) (dealer_cards @ [last deck])"
    by (simp add: dealer_play_draws)
  have stand: "hand_value dealer_cards = (17, True) \<longrightarrow>
      dealer_play deck dealer_cards = Inr (deck, dealer_cards)"
    by (simp add: dealer_play_stops)
  have stop: "17 \<le> fst (hand_value dealer_cards) \<longrightarrow>
      dealer_play deck dealer_cards = Inr (deck, dealer_cards)"
    by (simp add: dealer_play_stops)
  have ace_six: "dealer_play deck [Card RA s1, Card R6 s2] = Inr (deck, [Card RA s1, Card R6 s2])"
    using soft by (simp add: dealer_play_stops)
  have sixteen: "sum_card_values_as_ace_one dealer_cards = 16 \<and> deck \<noteq> [] \<longrightarrow>
      fst (hand_value dealer_cards) = 16
      \<and> dealer_play deck dealer_cards = Inr (butlast deck, dealer_cards @ [last deck])"
    using hard by blast
  show ?thesis
    by (intro conjI draw more stand stop soft ace_six sixteen)
qed

theorem dealer_play_policy_witness:
  "fst (hand_value [Card RK Spades, Card R6 Hearts]) < 17
   \<and> sum_card_values_as_ace_one [Card RK Spades, Card R6 Hearts] = 16
   \<and> [Card R3 Clubs, Card R5 Clubs] \<noteq> []
   \<and> dealer_play [Card R3 Clubs, Card R5 Clubs] [Card RK Spades, Card R6 Hearts]
       = Inr ([Card R3 Clubs], [Card RK Spades, Card R6 Hearts, Card R5 Clubs])
   \<and> hand_value [Card RA Spades, Card R6 Hearts] = (17, True)
   \<and> 17 \<le> fst (hand_value [Card RA Spades, Card R6 Hearts])
   \<and> dealer_play [Card R3 Clubs, Card R5 Clubs] [Card RA Spades, Card R6 Hearts]
       = Inr ([Card R3 Clubs, Card R5 Clubs], [Card RA Spades, Card R6 Hearts])"
proof -
  have a: "fst (hand_value [Card RK Spades, Card R6 Hearts]) < 17"
    by (simp add: hand_value_def any_ace_def)
  have b: "sum_card_values_as_ace_one [Card RK Spades, Card R6 Hearts] = 16"
    by (simp add: sum_card_values_as_ace_one_def)
  have c: "hand_value [Card RA Spades, Card R6 Hearts] = (17, True)"
    by (simp add: hand_value_def any_ace_def)
  show ?thesis
    using a b c
      dealer_play_policy [of "[Card RK Spades, Card R6 Hearts]" "[Card R3 Clubs, Card R5 Clubs]"]
      dealer_play_policy [of "[Card RA Spades, Card R6 Hearts]" "[Card R3 Clubs, Card R5 Clubs]"
        Spades Hearts]
    by simp
qed

text \<open>
  C10. \<^verbatim>\<open>dealer_play\<close> terminates on a shoe with enough cards. The total of the hand is
  not what grows: the soft 16 \<open>[A, 5]\<close> draws a 6 and becomes a 12. What grows with every
  card drawn is the sum with every Ace as 1, which is at most the total, and the loop goes
  on only while the total is below 17; so a shoe of at least 17 minus that sum cards is
  enough for the loop to return, with a hand of total 17 or more.
\<close>

theorem dealer_play_terminates:
  "(17 \<le> sum_card_values_as_ace_one dealer_cards + int (length deck) \<longrightarrow>
      (\<exists>deck' cards'. dealer_play deck dealer_cards = Inr (deck', cards')
         \<and> 17 \<le> fst (hand_value cards')))
   \<and> (fst (hand_value dealer_cards) < 17 \<and> deck \<noteq> [] \<longrightarrow>
        dealer_play deck dealer_cards = dealer_play (butlast deck) (dealer_cards @ [last deck])
        \<and> sum_card_values_as_ace_one dealer_cards
            < sum_card_values_as_ace_one (dealer_cards @ [last deck])
        \<and> sum_card_values_as_ace_one dealer_cards < 17)
   \<and> (17 \<le> fst (hand_value dealer_cards) \<longrightarrow>
        dealer_play deck dealer_cards = Inr (deck, dealer_cards))"
proof -
  have ret: "\<exists>deck' cards'. dealer_play deck dealer_cards = Inr (deck', cards')
         \<and> 17 \<le> fst (hand_value cards')"
    if "17 \<le> sum_card_values_as_ace_one dealer_cards + int (length deck)"
  proof -
    from dealer_play_returns [OF that] obtain deck' cards'
      where r: "dealer_play deck dealer_cards = Inr (deck', cards')" by blast
    from dealer_play_result [OF r] have "17 \<le> fst (hand_value cards')" by simp
    with r show ?thesis by blast
  qed
  have low: "sum_card_values_as_ace_one dealer_cards < 17"
    if "fst (hand_value dealer_cards) < 17"
    using that ace_one_le_value [of dealer_cards] by simp
  show ?thesis
    using ret low by (simp add: dealer_play_draws dealer_play_stops ace_one_grows)
qed

theorem dealer_play_terminates_witness:
  "17 \<le> sum_card_values_as_ace_one [Card RK Spades, Card R5 Hearts]
          + int (length [Card RK Diamonds, Card R6 Clubs])
   \<and> fst (hand_value [Card RK Spades, Card R5 Hearts]) < 17
   \<and> [Card RK Diamonds, Card R6 Clubs] \<noteq> []
   \<and> sum_card_values_as_ace_one [Card RK Spades, Card R5 Hearts]
       < sum_card_values_as_ace_one [Card RK Spades, Card R5 Hearts, Card R6 Clubs]
   \<and> dealer_play [Card RK Diamonds, Card R6 Clubs] [Card RK Spades, Card R5 Hearts]
       = Inr ([Card RK Diamonds], [Card RK Spades, Card R5 Hearts, Card R6 Clubs])
   \<and> 17 \<le> fst (hand_value [Card RK Spades, Card R5 Hearts, Card R6 Clubs])"
proof -
  have a: "fst (hand_value [Card RK Spades, Card R5 Hearts]) = 15"
    by (simp add: hand_value_def any_ace_def)
  have b: "fst (hand_value [Card RK Spades, Card R5 Hearts, Card R6 Clubs]) = 21"
    by (simp add: hand_value_def any_ace_def)
  show ?thesis
    using a b
      dealer_play_terminates [of "[Card RK Spades, Card R5 Hearts]"
        "[Card RK Diamonds, Card R6 Clubs]"]
      dealer_play_terminates [of "[Card RK Spades, Card R5 Hearts, Card R6 Clubs]"
        "[Card RK Diamonds]"]
    by (simp add: sum_card_values_as_ace_one_def)
qed

theorem dealer_total_decreases:
  "fst (hand_value [Card RA Spades, Card R5 Hearts]) = 16
   \<and> dealer_play [Card RK Diamonds, Card R6 Clubs] [Card RA Spades, Card R5 Hearts]
       = dealer_play [Card RK Diamonds] [Card RA Spades, Card R5 Hearts, Card R6 Clubs]
   \<and> fst (hand_value [Card RA Spades, Card R5 Hearts, Card R6 Clubs]) = 12
   \<and> \<not> fst (hand_value [Card RA Spades, Card R5 Hearts])
        < fst (hand_value [Card RA Spades, Card R5 Hearts, Card R6 Clubs])"
proof -
  have a: "fst (hand_value [Card RA Spades, Card R5 Hearts]) = 16"
    by (simp add: hand_value_def any_ace_def)
  have b: "fst (hand_value [Card RA Spades, Card R5 Hearts, Card R6 Clubs]) = 12"
    by (simp add: hand_value_def any_ace_def)
  have c: "dealer_play [Card RK Diamonds, Card R6 Clubs] [Card RA Spades, Card R5 Hearts]
       = dealer_play [Card RK Diamonds] [Card RA Spades, Card R5 Hearts, Card R6 Clubs]"
    using a by (subst dealer_play_unfold) simp
  show ?thesis using a b c by simp
qed

section \<open>Chips after a round\<close>

text \<open>
  C4. In a round in which the player doubles and does not bust, \<^verbatim>\<open>play_round\<close> takes
  the bet \<open>b\<close> from the chips when the player doubles and then settles the doubled bet
  \<open>2 * b\<close>: against the chips at the start of the round a win of the dealer costs
  \<open>3 * b\<close>, a win of the player (or a bust of the dealer) brings \<open>b\<close>, and a push
  costs \<open>b\<close>.
\<close>

theorem doubled_round_chips:
  assumes r: "play_round chips cards stdin = Inr (Played s)"
    and d: "l_doubled s"
    and nb: "fst (hand_value (l_player_cards s)) \<le> 21"
  shows "(\<exists>rest. prompt_bet chips stdin = Inr (Some (l_original_bet s), rest))
    \<and> l_bet s = 2 * l_original_bet s
    \<and> l_original_bet s \<le> chips - l_original_bet s
    \<and> compare_outcome (l_player_cards s) (l_dealer_cards s) \<noteq> Player_bust
    \<and> (compare_outcome (l_player_cards s) (l_dealer_cards s) = Dealer_win \<longrightarrow>
          l_chips s = chips - 3 * l_original_bet s)
    \<and> (compare_outcome (l_player_cards s) (l_dealer_cards s) = Player_win \<longrightarrow>
          l_chips s = chips + l_original_bet s)
    \<and> (compare_outcome (l_player_cards s) (l_dealer_cards s) = Dealer_bust \<longrightarrow>
          l_chips s = chips + l_original_bet s)
    \<and> (compare_outcome (l_player_cards s) (l_dealer_cards s) = Push \<longrightarrow>
          l_chips s = chips - l_original_bet s)"
proof -
  from play_round_Played [OF r] obtain pc c1 dc c2 bet rest
    where d1: "deal cards 2 = Inr (pc, c1)"
      and pb: "prompt_bet chips stdin = Inr (Some bet, rest)"
      and alt: "((is_blackjack pc \<or> is_blackjack dc)
          \<and> (\<exists>c. s = \<lparr>l_chips = c, l_bet = bet, l_original_bet = bet, l_doubled = False,
                      l_deck = c2, l_player_cards = pc, l_dealer_cards = dc,
                      l_stdin = rest\<rparr>))
         \<or> (\<not> is_blackjack pc \<and> \<not> is_blackjack dc
            \<and> (player_loop \<lparr>l_chips = chips, l_bet = bet, l_original_bet = bet,
                    l_doubled = False, l_deck = c2, l_player_cards = pc,
                    l_dealer_cards = dc, l_stdin = rest\<rparr> = Inr (Returned, s)
                \<or> (\<exists>s1 deck' dc'.
                     player_loop \<lparr>l_chips = chips, l_bet = bet, l_original_bet = bet,
                       l_doubled = False, l_deck = c2, l_player_cards = pc,
                       l_dealer_cards = dc, l_stdin = rest\<rparr> = Inr (Broke, s1)
                     \<and> dealer_play (l_deck s1) (l_dealer_cards s1) = Inr (deck', dc')
                     \<and> s = resolve (s1\<lparr>l_deck := deck', l_dealer_cards := dc'\<rparr>))))"
    by blast
  let ?s0 = "\<lparr>l_chips = chips, l_bet = bet, l_original_bet = bet,
                    l_doubled = False, l_deck = c2, l_player_cards = pc,
                    l_dealer_cards = dc, l_stdin = rest\<rparr>"
  from deal_two_result [OF d1] have lp: "length pc = 2" by simp
  have v0: "fst (hand_value (l_player_cards ?s0)) \<le> 21"
    using two_cards_value [OF lp] by simp
  have nd: "\<not> l_doubled ?s0" by simp
  from alt d consider
      (bust) "player_loop ?s0 = Inr (Returned, s)"
    | (final) s1 deck' dc' where "player_loop ?s0 = Inr (Broke, s1)"
        "dealer_play (l_deck s1) (l_dealer_cards s1) = Inr (deck', dc')"
        "s = resolve (s1\<lparr>l_deck := deck', l_dealer_cards := dc'\<rparr>)"
    by auto
  then show ?thesis
  proof cases
    case bust
    from player_loop_result [OF bust v0 nd] nb show ?thesis by simp
  next
    case final
    let ?s2 = "s1\<lparr>l_deck := deck', l_dealer_cards := dc'\<rparr>"
    from d final(3) have d1: "l_doubled s1" by (simp add: resolve_fields)
    from player_loop_result [OF final(1) v0 nd] d1
    have ob: "l_original_bet s1 = bet" and ch: "l_chips s1 = chips - bet"
      and bt: "l_bet s1 = bet * 2" and af: "bet \<le> chips - bet"
      by simp_all
    have f: "l_original_bet s = bet" "l_bet s = 2 * bet"
      "l_player_cards s = l_player_cards ?s2" "l_dealer_cards s = l_dealer_cards ?s2"
      unfolding final(3) using ob bt by (simp_all add: resolve_fields)
    have nbust: "compare_outcome (l_player_cards s) (l_dealer_cards s) \<noteq> Player_bust"
      using nb by (simp add: compare_outcome_def Let_def)
    have chips: "l_chips s =
        (case compare_outcome (l_player_cards s) (l_dealer_cards s) of
           Player_bust \<Rightarrow> chips - 3 * bet
         | Dealer_bust \<Rightarrow> chips + bet
         | Player_win \<Rightarrow> chips + bet
         | Dealer_win \<Rightarrow> chips - 3 * bet
         | Push \<Rightarrow> chips - bet)"
      unfolding f(3,4) unfolding final(3)
      using ch bt by (simp add: resolve_def split: outcome.splits)
    show ?thesis
      using pb f(1,2) af nbust chips by (simp split: outcome.splits)
  qed
qed

theorem doubled_round_chips_witness:
  "(\<exists>s. play_round 100
          (deck_dealing [Card R5 Hearts, Card R6 Hearts, Card RK Spades, Card R9 Spades,
                         Card R2 Spades])
          [Int_line 10, Double_line] = Inr (Played s)
        \<and> l_doubled s \<and> fst (hand_value (l_player_cards s)) \<le> 21
        \<and> compare_outcome (l_player_cards s) (l_dealer_cards s) = Dealer_win
        \<and> l_original_bet s = 10 \<and> l_bet s = 20 \<and> l_chips s = 100 - 3 * 10)
   \<and> (\<exists>s. play_round 100
          (deck_dealing [Card R5 Hearts, Card R6 Hearts, Card RK Spades, Card R9 Spades,
                         Card RT Spades])
          [Int_line 10, Double_line] = Inr (Played s)
        \<and> l_doubled s \<and> fst (hand_value (l_player_cards s)) \<le> 21
        \<and> compare_outcome (l_player_cards s) (l_dealer_cards s) = Player_win
        \<and> l_original_bet s = 10 \<and> l_bet s = 20 \<and> l_chips s = 100 + 10)
   \<and> (\<exists>s. play_round 100
          (deck_dealing [Card R5 Hearts, Card R6 Hearts, Card RK Spades, Card R6 Spades,
                         Card R2 Spades, Card RQ Spades])
          [Int_line 10, Double_line] = Inr (Played s)
        \<and> l_doubled s \<and> fst (hand_value (l_player_cards s)) \<le> 21
        \<and> compare_outcome (l_player_cards s) (l_dealer_cards s) = Dealer_bust
        \<and> l_original_bet s = 10 \<and> l_bet s = 20 \<and> l_chips s = 100 + 10)
   \<and> (\<exists>s. play_round 100
          (deck_dealing [Card R5 Hearts, Card R6 Hearts, Card RK Spades, Card R8 Spades,
                         Card R7 Spades])
          [Int_line 10, Double_line] = Inr (Played s)
        \<and> l_doubled s \<and> fst (hand_value (l_player_cards s)) \<le> 21
        \<and> compare_outcome (l_player_cards s) (l_dealer_cards s) = Push
        \<and> l_original_bet s = 10 \<and> l_bet s = 20 \<and> l_chips s = 100 - 10)"
proof -
  have a: "case play_round 100
          (deck_dealing [Card R5 Hearts, Card R6 Hearts, Card RK Spades, Card R9 Spades,
                         Card R2 Spades])
          [Int_line 10, Double_line] of
        Inr (Played s) \<Rightarrow> l_doubled s \<and> fst (hand_value (l_player_cards s)) \<le> 21
          \<and> compare_outcome (l_player_cards s) (l_dealer_cards s) = Dealer_win
          \<and> l_original_bet s = 10
      | _ \<Rightarrow> False"
    by code_simp
  have b: "case play_round 100
          (deck_dealing [Card R5 Hearts, Card R6 Hearts, Card RK Spades, Card R9 Spades,
                         Card RT Spades])
          [Int_line 10, Double_line] of
        Inr (Played s) \<Rightarrow> l_doubled s \<and> fst (hand_value (l_player_cards s)) \<le> 21
          \<and> compare_outcome (l_player_cards s) (l_dealer_cards s) = Player_win
          \<and> l_original_bet s = 10
      | _ \<Rightarrow> False"
    by code_simp
  have c: "case play_round 100
          (deck_dealing [Card R5 Hearts, Card R6 Hearts, Card RK Spades, Card R6 Spades,
                         Card R2 Spades, Card RQ Spades])
          [Int_line 10, Double_line] of
        Inr (Played s) \<Rightarrow> l_doubled s \<and> fst (hand_value (l_player_cards s)) \<le> 21
          \<and> compare_outcome (l_player_cards s) (l_dealer_cards s) = Dealer_bust
          \<and> l_original_bet s = 10
      | _ \<Rightarrow> False"
    by code_simp
  have d: "case play_round 100
          (deck_dealing [Card R5 Hearts, Card R6 Hearts, Card RK Spades, Card R8 Spades,
                         Card R7 Spades])
          [Int_line 10, Double_line] of
        Inr (Played s) \<Rightarrow> l_doubled s \<and> fst (hand_value (l_player_cards s)) \<le> 21
          \<and> compare_outcome (l_player_cards s) (l_dealer_cards s) = Push
          \<and> l_original_bet s = 10
      | _ \<Rightarrow> False"
    by code_simp
  from played_caseD [OF a] obtain sa where a':
    "play_round 100
          (deck_dealing [Card R5 Hearts, Card R6 Hearts, Card RK Spades, Card R9 Spades,
                         Card R2 Spades])
          [Int_line 10, Double_line] = Inr (Played sa)"
    "l_doubled sa" "fst (hand_value (l_player_cards sa)) \<le> 21"
    "compare_outcome (l_player_cards sa) (l_dealer_cards sa) = Dealer_win"
    "l_original_bet sa = 10"
    by blast
  from played_caseD [OF b] obtain sb where b':
    "play_round 100
          (deck_dealing [Card R5 Hearts, Card R6 Hearts, Card RK Spades, Card R9 Spades,
                         Card RT Spades])
          [Int_line 10, Double_line] = Inr (Played sb)"
    "l_doubled sb" "fst (hand_value (l_player_cards sb)) \<le> 21"
    "compare_outcome (l_player_cards sb) (l_dealer_cards sb) = Player_win"
    "l_original_bet sb = 10"
    by blast
  from played_caseD [OF c] obtain sc where c':
    "play_round 100
          (deck_dealing [Card R5 Hearts, Card R6 Hearts, Card RK Spades, Card R6 Spades,
                         Card R2 Spades, Card RQ Spades])
          [Int_line 10, Double_line] = Inr (Played sc)"
    "l_doubled sc" "fst (hand_value (l_player_cards sc)) \<le> 21"
    "compare_outcome (l_player_cards sc) (l_dealer_cards sc) = Dealer_bust"
    "l_original_bet sc = 10"
    by blast
  from played_caseD [OF d] obtain sd where d':
    "play_round 100
          (deck_dealing [Card R5 Hearts, Card R6 Hearts, Card RK Spades, Card R8 Spades,
                         Card R7 Spades])
          [Int_line 10, Double_line] = Inr (Played sd)"
    "l_doubled sd" "fst (hand_value (l_player_cards sd)) \<le> 21"
    "compare_outcome (l_player_cards sd) (l_dealer_cards sd) = Push"
    "l_original_bet sd = 10"
    by blast
  from doubled_round_chips [OF a'(1,2,3)] a'(4,5)
  have ra: "l_bet sa = 20 \<and> l_chips sa = 100 - 3 * 10" by simp
  from doubled_round_chips [OF b'(1,2,3)] b'(4,5)
  have rb: "l_bet sb = 20 \<and> l_chips sb = 100 + 10" by simp
  from doubled_round_chips [OF c'(1,2,3)] c'(4,5)
  have rc: "l_bet sc = 20 \<and> l_chips sc = 100 + 10" by simp
  from doubled_round_chips [OF d'(1,2,3)] d'(4,5)
  have rd: "l_bet sd = 20 \<and> l_chips sd = 100 - 10" by simp
  show ?thesis
    using a' b' c' d' ra rb rc rd by blast
qed

text \<open>
  C1. The chips should never be negative after a round with \<open>1 \<le> bet \<le> chips\<close>. With
  100 chips and a bet of 50 the player may double (\<open>100 - 50 \<ge> 50\<close>); the 50 are taken
  at once, the bet becomes 100, and the dealer's 19 against the player's 13 takes the
  100: the round returns \<open>- 50\<close> chips.
\<close>

theorem chips_negative_after_double:
  "shuffled (deck_dealing [Card R5 Spades, Card R6 Spades, Card RK Spades, Card R9 Spades,
                           Card R2 Spades])
   \<and> (\<exists>s. play_round 100
          (deck_dealing [Card R5 Spades, Card R6 Spades, Card RK Spades, Card R9 Spades,
                         Card R2 Spades])
          [Int_line 50, Double_line] = Inr (Played s)
        \<and> l_player_cards s = [Card R5 Spades, Card R6 Spades, Card R2 Spades]
        \<and> l_dealer_cards s = [Card RK Spades, Card R9 Spades]
        \<and> l_original_bet s = 50 \<and> l_doubled s \<and> l_bet s = 100
        \<and> l_chips s = - 50 \<and> returned (Played s) = (Some True, - 50))"
proof -
  have sh: "shuffled (deck_dealing [Card R5 Spades, Card R6 Spades, Card RK Spades,
                Card R9 Spades, Card R2 Spades])"
    unfolding shuffled_iff by code_simp
  have "case play_round 100
          (deck_dealing [Card R5 Spades, Card R6 Spades, Card RK Spades, Card R9 Spades,
                         Card R2 Spades])
          [Int_line 50, Double_line] of
      Inr (Played s) \<Rightarrow>
        l_player_cards s = [Card R5 Spades, Card R6 Spades, Card R2 Spades]
        \<and> l_dealer_cards s = [Card RK Spades, Card R9 Spades]
        \<and> l_original_bet s = 50 \<and> l_doubled s \<and> l_bet s = 100
        \<and> l_chips s = - 50 \<and> returned (Played s) = (Some True, - 50)
    | _ \<Rightarrow> False"
    by code_simp
  from played_caseD [OF this] sh show ?thesis by blast
qed

text \<open>
  C2. A double that busts should cost the doubled bet, 20 chips for a bet of 10. The
  round takes the 10 chips of the double, records the bet 20, draws one card and, on the
  bust, returns with nothing more taken: 90 chips of 100 are left, a loss of 10.
\<close>

theorem double_bust_loses_single_bet:
  "shuffled (deck_dealing [Card RK Hearts, Card R6 Hearts, Card R9 Spades, Card R7 Spades,
                           Card RK Spades])
   \<and> (\<exists>s. play_round 100
          (deck_dealing [Card RK Hearts, Card R6 Hearts, Card R9 Spades, Card R7 Spades,
                         Card RK Spades])
          [Int_line 10, Double_line] = Inr (Played s)
        \<and> l_player_cards s = [Card RK Hearts, Card R6 Hearts, Card RK Spades]
        \<and> fst (hand_value (l_player_cards s)) = 26
        \<and> l_dealer_cards s = [Card R9 Spades, Card R7 Spades]
        \<and> l_original_bet s = 10 \<and> l_doubled s \<and> l_bet s = 20
        \<and> l_chips s = 90 \<and> returned (Played s) = (Some True, 90))"
proof -
  have sh: "shuffled (deck_dealing [Card RK Hearts, Card R6 Hearts, Card R9 Spades,
                Card R7 Spades, Card RK Spades])"
    unfolding shuffled_iff by code_simp
  have "case play_round 100
          (deck_dealing [Card RK Hearts, Card R6 Hearts, Card R9 Spades, Card R7 Spades,
                         Card RK Spades])
          [Int_line 10, Double_line] of
      Inr (Played s) \<Rightarrow>
        l_player_cards s = [Card RK Hearts, Card R6 Hearts, Card RK Spades]
        \<and> fst (hand_value (l_player_cards s)) = 26
        \<and> l_dealer_cards s = [Card R9 Spades, Card R7 Spades]
        \<and> l_original_bet s = 10 \<and> l_doubled s \<and> l_bet s = 20
        \<and> l_chips s = 90 \<and> returned (Played s) = (Some True, 90)
    | _ \<Rightarrow> False"
    by code_simp
  from played_caseD [OF this] sh show ?thesis by blast
qed

text \<open>
  C5. A push should leave the chips as they were at the start of the round. After a
  double the 10 chips taken at the double are not given back on a push of 18 against 18:
  90 chips of 100 are left.
\<close>

theorem push_after_double_costs_bet:
  "shuffled (deck_dealing [Card R5 Hearts, Card R6 Hearts, Card RK Spades, Card R8 Spades,
                           Card R7 Spades])
   \<and> (\<exists>s. play_round 100
          (deck_dealing [Card R5 Hearts, Card R6 Hearts, Card RK Spades, Card R8 Spades,
                         Card R7 Spades])
          [Int_line 10, Double_line] = Inr (Played s)
        \<and> fst (hand_value (l_player_cards s)) = 18
        \<and> fst (hand_value (l_dealer_cards s)) = 18
        \<and> compare_outcome (l_player_cards s) (l_dealer_cards s) = Push
        \<and> l_original_bet s = 10 \<and> l_doubled s
        \<and> l_chips s = 90 \<and> returned (Played s) = (Some True, 90))"
proof -
  have sh: "shuffled (deck_dealing [Card R5 Hearts, Card R6 Hearts, Card RK Spades,
                Card R8 Spades, Card R7 Spades])"
    unfolding shuffled_iff by code_simp
  have "case play_round 100
          (deck_dealing [Card R5 Hearts, Card R6 Hearts, Card RK Spades, Card R8 Spades,
                         Card R7 Spades])
          [Int_line 10, Double_line] of
      Inr (Played s) \<Rightarrow>
        fst (hand_value (l_player_cards s)) = 18
        \<and> fst (hand_value (l_dealer_cards s)) = 18
        \<and> compare_outcome (l_player_cards s) (l_dealer_cards s) = Push
        \<and> l_original_bet s = 10 \<and> l_doubled s
        \<and> l_chips s = 90 \<and> returned (Played s) = (Some True, 90)
    | _ \<Rightarrow> False"
    by code_simp
  from played_caseD [OF this] sh show ?thesis by blast
qed

section \<open>The natural\<close>

text \<open>
  C8. The payout of a natural should be \<open>floor(1.5 * bet)\<close> in exact arithmetic.
  \<^verbatim>\<open>int(1.5 * bet)\<close> is computed in binary64: for the bet 3002399751580333 the product
  4503599627370499.5 is a tie between two floats and rounds to the even one,
  4503599627370500, one more than the floor. (For \<open>3 * bet < 2^53\<close> the product is
  exact: \<open>payout_exact\<close>.)
\<close>

theorem natural_payout_rounds_up:
  "shuffled (deck_dealing [Card RA Hearts, Card RK Hearts, Card R9 Spades, Card R7 Spades])
   \<and> int_1_5_times 3002399751580333 = Inr 4503599627370500
   \<and> (3 * 3002399751580333) div 2 = (4503599627370499 :: int)
   \<and> (\<exists>s. play_round 3002399751580333
          (deck_dealing [Card RA Hearts, Card RK Hearts, Card R9 Spades, Card R7 Spades])
          [Int_line 3002399751580333] = Inr (Played s)
        \<and> l_player_cards s = [Card RA Hearts, Card RK Hearts]
        \<and> l_dealer_cards s = [Card R9 Spades, Card R7 Spades]
        \<and> is_blackjack (l_player_cards s) \<and> \<not> is_blackjack (l_dealer_cards s)
        \<and> l_bet s = 3002399751580333
        \<and> l_chips s = 3002399751580333 + (3002399751580333 + 4503599627370500)
        \<and> returned (Played s) = (Some True, 10508399130531166))"
proof -
  let ?d = "deck_dealing [Card RA Hearts, Card RK Hearts, Card R9 Spades, Card R7 Spades]"
  have sh: "shuffled ?d"
    unfolding shuffled_iff by code_simp
  have p: "int_1_5_times 3002399751580333 = Inr 4503599627370500"
    by (simp add: int_1_5_times_def round_to_double_def Let_def bit_length.simps)
  have d1: "deal ?d 2 = Inr ([Card RA Hearts, Card RK Hearts], butlast (butlast ?d))"
    by code_simp
  have d2: "deal (butlast (butlast ?d)) 2
              = Inr ([Card R9 Spades, Card R7 Spades], butlast (butlast (butlast (butlast ?d))))"
    by code_simp
  have pb: "prompt_bet 3002399751580333 [Int_line 3002399751580333]
              = Inr (Some 3002399751580333, [])"
    by simp
  have bj: "is_blackjack [Card RA Hearts, Card RK Hearts]"
    by (simp add: is_blackjack_def hand_value_def any_ace_def)
  have nbj: "\<not> is_blackjack [Card R9 Spades, Card R7 Spades]"
    by (simp add: is_blackjack_def hand_value_def any_ace_def)
  from natural_round [OF d1 d2 pb bj nbj p] sh p bj nbj
  show ?thesis by (simp add: returned_def)
qed

section \<open>The deck never runs out within a round\<close>

text \<open>
  C9. A round played from a shuffled deck of 52 cards never finds the deck empty: no call
  of \<^verbatim>\<open>deal\<close> raises IndexError, and when the round returns, the cards in the two
  hands and the cards left in the deck are the 52, with at most 39 of them dealt (at most
  22 to the player, whose hand had a total of at most 21 before the last card, and at most
  17 to the dealer, whose hand had a total below 17 before the last card).
\<close>

theorem round_never_exhausts_deck:
  assumes "shuffled cards"
  shows "play_round chips cards stdin \<noteq> Inl IndexError
    \<and> (\<forall>s. play_round chips cards stdin = Inr (Played s) \<longrightarrow>
          length (l_player_cards s) + length (l_dealer_cards s) + length (l_deck s) = 52
          \<and> length (l_player_cards s) + length (l_dealer_cards s) \<le> 39
          \<and> length (l_player_cards s) + length (l_dealer_cards s) < 52
          \<and> l_deck s \<noteq> [])"
proof -
  have len: "length cards = 52"
    using assms by (rule shuffled_length)
  have "length (l_player_cards s) + length (l_dealer_cards s) + length (l_deck s) = 52
          \<and> length (l_player_cards s) + length (l_dealer_cards s) \<le> 39
          \<and> length (l_player_cards s) + length (l_dealer_cards s) < 52
          \<and> l_deck s \<noteq> []"
    if "play_round chips cards stdin = Inr (Played s)" for s
    using round_cards_bound [OF len that] by auto
  then show ?thesis
    using round_no_index_error [OF len] by blast
qed

theorem round_never_exhausts_deck_witness:
  "shuffled new_cards
   \<and> play_round 100 new_cards [Int_line 10, Hit_line, Stand_line] \<noteq> Inl IndexError
   \<and> (\<exists>s. play_round 100 new_cards [Int_line 10, Hit_line, Stand_line] = Inr (Played s)
        \<and> length (l_player_cards s) = 3 \<and> length (l_dealer_cards s) = 4
        \<and> length (l_deck s) = 45
        \<and> length (l_player_cards s) + length (l_dealer_cards s) < 52
        \<and> l_deck s \<noteq> [])"
proof -
  have sh: "shuffled new_cards" by (simp add: shuffled_def)
  have "case play_round 100 new_cards [Int_line 10, Hit_line, Stand_line] of
          Inr (Played s) \<Rightarrow> length (l_player_cards s) = 3 \<and> length (l_dealer_cards s) = 4
            \<and> length (l_deck s) = 45
        | _ \<Rightarrow> False"
    by code_simp
  from played_caseD [OF this] obtain s
    where s: "play_round 100 new_cards [Int_line 10, Hit_line, Stand_line] = Inr (Played s)"
      "length (l_player_cards s) = 3" "length (l_dealer_cards s) = 4" "length (l_deck s) = 45"
    by blast
  from round_never_exhausts_deck [OF sh, of 100 "[Int_line 10, Hit_line, Stand_line]"] s sh
  show ?thesis by auto
qed

end
